theory Spec2Isabelle
  imports Main "HOL-Library.Sublist"
begin

section \<open>Strings\<close>

text \<open>
  A Python \<open>str\<close> is a sequence of Unicode code points, modelled as a list of natural
  numbers. \<open>lit\<close> turns a literal of ASCII characters into its code points.
\<close>

type_synonym str = "nat list"

definition lit :: "char list \<Rightarrow> str" where
  "lit cs = map of_char cs"

text \<open>
  \<open>str.lower\<close> is a builtin. It goes through the string from left to right and replaces
  every character by its lowercase mapping from the Unicode tables, which for one character
  (U+0130, 304) is two characters long. The capital sigma (U+03A3, 931) is the exception:
  it becomes the final sigma (U+03C2, 962) when a cased letter stands before it and none
  after it, characters that are case-ignorable being skipped on both sides, and the small
  sigma (U+03C3, 963) otherwise.

  The three tables are given here for the code points below 256, for the Greek letters
  U+0391 .. U+03A9 and U+03B1 .. U+03C9, and for U+0130 and U+0307. Every other code point
  is taken to have no case.
\<close>

definition to_lower_full :: "nat \<Rightarrow> str" where
  "to_lower_full c =
     (if c = 304 then [105, 775]
      else if (65 \<le> c \<and> c \<le> 90) \<or> (192 \<le> c \<and> c \<le> 214) \<or> (216 \<le> c \<and> c \<le> 222) \<or>
              (913 \<le> c \<and> c \<le> 929) \<or> (931 \<le> c \<and> c \<le> 937)
      then [c + 32]
      else [c])"

definition is_cased :: "nat \<Rightarrow> bool" where
  "is_cased c =
     ((65 \<le> c \<and> c \<le> 90) \<or> (97 \<le> c \<and> c \<le> 122) \<or> c = 170 \<or> c = 181 \<or> c = 186 \<or>
      (192 \<le> c \<and> c \<le> 214) \<or> (216 \<le> c \<and> c \<le> 246) \<or> (248 \<le> c \<and> c \<le> 255) \<or>
      c = 304 \<or> (913 \<le> c \<and> c \<le> 929) \<or> (931 \<le> c \<and> c \<le> 937) \<or>
      (945 \<le> c \<and> c \<le> 969))"

definition is_case_ignorable :: "nat \<Rightarrow> bool" where
  "is_case_ignorable c =
     (c = 39 \<or> c = 46 \<or> c = 58 \<or> c = 94 \<or> c = 96 \<or> c = 168 \<or> c = 173 \<or> c = 175 \<or>
      c = 180 \<or> c = 183 \<or> c = 184 \<or> c = 775)"

text \<open>
  The lowercase form of a capital sigma. \<open>left\<close> holds the characters before it, the
  nearest first; \<open>right\<close> the characters after it.
\<close>

definition handle_capital_sigma :: "str \<Rightarrow> str \<Rightarrow> nat" where
  "handle_capital_sigma left right =
     (let final_sigma =
            (case dropWhile is_case_ignorable left of [] \<Rightarrow> False | c # _ \<Rightarrow> is_cased c);
          final_sigma =
            (if final_sigma
             then (case dropWhile is_case_ignorable right of [] \<Rightarrow> True | c # _ \<Rightarrow> \<not> is_cased c)
             else False)
      in if final_sigma then 962 else 963)"

fun do_lower :: "str \<Rightarrow> str \<Rightarrow> str" where
  "do_lower left [] = []"
| "do_lower left (c # cs) =
     (if c = 931 then [handle_capital_sigma left cs] else to_lower_full c) @ do_lower (c # left) cs"

definition lower :: "str \<Rightarrow> str" where
  "lower s = do_lower [] s"


section \<open>Task\<close>

text \<open>
  \<open>class Task\<close>. The field \<open>id\<close> of the source is \<open>task_id\<close> here (\<open>id\<close> is the identity
  function of HOL). \<open>created_at\<close> holds what \<open>datetime.now()\<close> returned, a reading of the
  clock that the caller of the model supplies.
\<close>

record Task =
  task_id :: int
  title :: str
  description :: str
  priority :: str
  completed :: bool
  created_at :: nat

text \<open>
  \<open>Task.__init__\<close>. \<open>self\<close> is the address at which the runtime has allocated the new
  object; \<open>id(self)\<close> is that address. The constructor has no check and no \<open>raise\<close>.
\<close>

definition Task_init :: "int \<Rightarrow> nat \<Rightarrow> str \<Rightarrow> str \<Rightarrow> str \<Rightarrow> Task" where
  "Task_init self now ttl descr prio =
     \<lparr> task_id = self,
       title = ttl,
       description = descr,
       priority = lower prio,
       completed = False,
       created_at = now \<rparr>"

text \<open>\<open>Task.mark_complete\<close>.\<close>

definition Task_mark_complete :: "Task \<Rightarrow> Task" where
  "Task_mark_complete t = t\<lparr>completed := True\<rparr>"

section \<open>TaskManager\<close>

text \<open>
  The Task objects are mutable and the list \<open>self.tasks\<close> holds references to them, so the
  state has two parts: the object store \<open>heap\<close>, from the address of every live Task object
  to its fields, and \<open>tasks\<close>, the list of the manager, each entry the address of an object.
  \<open>id(task)\<close> on an entry of the list is the entry itself.
\<close>

record state =
  heap :: "int \<rightharpoonup> Task"
  tasks :: "int list"

datatype error = ValueError | IndexError

abbreviation priorities :: "str list" where
  "priorities \<equiv> [(lit ''high''), (lit ''medium''), (lit ''low'')]"

text \<open>\<open>TaskManager.__init__\<close>, in a runtime whose live Task objects are \<open>h\<close>.\<close>

definition TaskManager_init :: "(int \<rightharpoonup> Task) \<Rightarrow> state" where
  "TaskManager_init h = \<lparr> heap = h, tasks = [] \<rparr>"

text \<open>
  \<open>TaskManager.add_task\<close>. \<open>a\<close> is the address the runtime gives to the object that
  \<open>Task(...)\<close> creates, and \<open>now\<close> the clock reading. The result is the error raised or
  the reference returned, together with the state the call leaves behind.
\<close>

definition add_task ::
  "int \<Rightarrow> nat \<Rightarrow> str \<Rightarrow> str \<Rightarrow> str \<Rightarrow> state \<Rightarrow> (error + int) \<times> state" where
  "add_task a now ttl descr prio s =
     (if lower prio \<notin> set priorities then (Inl ValueError, s)
      else
        let task = Task_init a now ttl descr prio
        in (Inr a, s\<lparr> heap := (heap s)(a \<mapsto> task), tasks := tasks s @ [a] \<rparr>))"

text \<open>\<open>TaskManager.list_all_tasks\<close>.\<close>

definition list_all_tasks :: "state \<Rightarrow> int list \<times> state" where
  "list_all_tasks s = (tasks s, s)"

text \<open>
  \<open>TaskManager.mark_complete\<close>: the \<open>for\<close> loop over \<open>self.tasks\<close>, which returns at the
  first entry whose address is \<open>task_id\<close>, after setting the flag of that object.
\<close>

fun mark_complete_loop :: "int list \<Rightarrow> int \<Rightarrow> (int \<rightharpoonup> Task) \<Rightarrow> bool \<times> (int \<rightharpoonup> Task)" where
  "mark_complete_loop [] tid h = (False, h)"
| "mark_complete_loop (a # as) tid h =
     (if a = tid then (True, h(a := map_option Task_mark_complete (h a)))
      else mark_complete_loop as tid h)"

definition mark_complete :: "int \<Rightarrow> state \<Rightarrow> bool \<times> state" where
  "mark_complete tid s =
     (case mark_complete_loop (tasks s) tid (heap s) of (r, h) \<Rightarrow> (r, s\<lparr> heap := h \<rparr>))"

text \<open>
  \<open>TaskManager.delete_task\<close>: the loop over \<open>enumerate(self.tasks)\<close> finds the index of the
  first entry whose address is \<open>task_id\<close>; \<open>self.tasks.pop(i)\<close> removes the entry at that
  index and raises \<open>IndexError\<close> when the index is out of range.
\<close>

fun delete_task_loop :: "nat \<Rightarrow> int list \<Rightarrow> int \<Rightarrow> nat option" where
  "delete_task_loop i [] tid = None"
| "delete_task_loop i (a # as) tid =
     (if a = tid then Some i else delete_task_loop (Suc i) as tid)"

definition pop :: "nat \<Rightarrow> 'a list \<Rightarrow> error + 'a list" where
  "pop i xs = (if i < length xs then Inr (take i xs @ drop (Suc i) xs) else Inl IndexError)"

definition delete_task :: "int \<Rightarrow> state \<Rightarrow> (error + bool) \<times> state" where
  "delete_task tid s =
     (case delete_task_loop 0 (tasks s) tid of
        None \<Rightarrow> (Inr False, s)
      | Some i \<Rightarrow>
          (case pop i (tasks s) of
             Inl e \<Rightarrow> (Inl e, s)
           | Inr xs \<Rightarrow> (Inr True, s\<lparr> tasks := xs \<rparr>)))"

text \<open>
  \<open>TaskManager.filter_by_priority\<close>: the list comprehension, as the loop it stands for.
  An entry of the list always refers to a live object; the branch for an address with no
  object is there only because the model's heap is a partial map.
\<close>

fun filter_by_priority_loop :: "(int \<rightharpoonup> Task) \<Rightarrow> str \<Rightarrow> int list \<Rightarrow> int list" where
  "filter_by_priority_loop h prio [] = []"
| "filter_by_priority_loop h prio (a # as) =
     (case h a of
        None \<Rightarrow> filter_by_priority_loop h prio as
      | Some t \<Rightarrow>
          if priority t = lower prio then a # filter_by_priority_loop h prio as
          else filter_by_priority_loop h prio as)"

definition filter_by_priority :: "str \<Rightarrow> state \<Rightarrow> int list \<times> state" where
  "filter_by_priority prio s = (filter_by_priority_loop (heap s) prio (tasks s), s)"



section \<open>The runtime\<close>

text \<open>
  \<open>id(x)\<close> is the address of the object \<open>x\<close>. Python promises that it is constant
  while the object lives and different from the address of every other object living at the
  same time; two objects whose lifetimes do not overlap may have the same. An object that
  nothing refers to any more is reclaimed, and its address is free for a later object.
  \<open>reclaim a\<close> is that step for an object the manager's list does not hold. The address of
  a new object is an argument of \<open>add_task\<close>, chosen by the runtime among the addresses of
  no live object.
\<close>

definition reclaim :: "int \<Rightarrow> state \<Rightarrow> state" where
  "reclaim a s = (if a \<in> set (tasks s) then s else s\<lparr> heap := (heap s)(a := None) \<rparr>)"

text \<open>
  The states a manager can be in: it starts empty, and from then on tasks are added (each new
  object at an address no live object has), marked and deleted, Task objects are constructed
  outside the manager, and objects the list does not hold are reclaimed.
\<close>

inductive reachable :: "state \<Rightarrow> bool" where
  r_init: "reachable (TaskManager_init h)"
| r_add: "reachable s \<Longrightarrow> a \<notin> dom (heap s) \<Longrightarrow> reachable (snd (add_task a now ttl descr prio s))"
| r_mark: "reachable s \<Longrightarrow> reachable (snd (mark_complete tid s))"
| r_delete: "reachable s \<Longrightarrow> reachable (snd (delete_task tid s))"
| r_construct: "reachable s \<Longrightarrow> a \<notin> dom (heap s) \<Longrightarrow>
     reachable (s\<lparr> heap := (heap s)(a \<mapsto> Task_init a now ttl descr prio) \<rparr>)"
| r_reclaim: "reachable s \<Longrightarrow> reachable (reclaim a s)"

text \<open>
  The invariant of the list: no address twice, and every entry refers to a live object whose
  field \<open>id\<close> is its address and whose priority is one of the three.
\<close>

definition held_ok :: "(int \<rightharpoonup> Task) \<Rightarrow> int \<Rightarrow> bool" where
  "held_ok h a = (case h a of None \<Rightarrow> False | Some t \<Rightarrow> task_id t = a \<and> priority t \<in> set priorities)"

definition store_ok :: "state \<Rightarrow> bool" where
  "store_ok s = (distinct (tasks s) \<and> list_all (held_ok (heap s)) (tasks s))"




text \<open>
  The store that \<open>main\<close> builds with its four calls of \<open>add_task\<close>, in a run where the
  runtime places the four objects at the addresses 1 to 4 and the clock reads 0 to 3.
\<close>

definition main_store :: state where
  "main_store =
     snd (add_task 4 3 (lit ''Bug fix'') (lit ''Fix critical bug in payment system'') (lit ''high'')
       (snd (add_task 3 2 (lit ''Update docs'') (lit ''Update documentation'') (lit ''low'')
         (snd (add_task 2 1 (lit ''Review code'') (lit ''Review pull requests'') (lit ''medium'')
           (snd (add_task 1 0 (lit ''Complete project'') (lit ''Finish the Python project'') (lit ''high'')
             (TaskManager_init Map.empty))))))))"

section \<open>Basic facts\<close>

lemma lit_eq_iff [simp]: "lit a = lit b \<longleftrightarrow> a = b"
  unfolding lit_def by (rule inj_map_eq_map) (simp add: inj_def)

lemma lower_Nil [simp]: "lower [] = []"
  by (simp add: lower_def)

lemma lower_high: "lower (lit ''high'') = (lit ''high'')"
  by code_simp

lemma lower_medium: "lower (lit ''medium'') = (lit ''medium'')"
  by code_simp

lemma lower_low: "lower (lit ''low'') = (lit ''low'')"
  by code_simp

lemma lower_HIGH: "lower (lit ''HIGH'') = (lit ''high'')"
  by code_simp

lemma lower_urgent: "lower (lit ''urgent'') = (lit ''urgent'')"
  by code_simp


lemma mark_complete_loop_absent:
  "tid \<notin> set as \<Longrightarrow> mark_complete_loop as tid h = (False, h)"
  by (induction as) simp_all

lemma mark_complete_loop_present:
  "tid \<in> set as \<Longrightarrow>
     mark_complete_loop as tid h = (True, h(tid := map_option Task_mark_complete (h tid)))"
  by (induction as) auto

lemma delete_task_loop_absent: "tid \<notin> set as \<Longrightarrow> delete_task_loop i as tid = None"
  by (induction as arbitrary: i) simp_all

lemma delete_task_loop_present:
  "tid \<in> set as \<Longrightarrow>
     \<exists>ys zs. as = ys @ tid # zs \<and> tid \<notin> set ys \<and> delete_task_loop i as tid = Some (i + length ys)"
proof (induction as arbitrary: i)
  case Nil
  then show ?case by simp
next
  case (Cons a as)
  show ?case
  proof (cases "a = tid")
    case True
    then have "a # as = [] @ tid # as \<and> tid \<notin> set [] \<and>
        delete_task_loop i (a # as) tid = Some (i + length ([] :: int list))"
      by simp
    then show ?thesis by blast
  next
    case False
    with Cons.prems have "tid \<in> set as" by simp
    from Cons.IH [OF this, of "Suc i"] obtain ys zs where
      "as = ys @ tid # zs" "tid \<notin> set ys" "delete_task_loop (Suc i) as tid = Some (Suc i + length ys)"
      by blast
    with False have "a # as = (a # ys) @ tid # zs \<and> tid \<notin> set (a # ys) \<and>
        delete_task_loop i (a # as) tid = Some (i + length (a # ys))"
      by simp
    then show ?thesis by blast
  qed
qed

lemma filter_by_priority_loop_filter:
  "filter_by_priority_loop h prio as =
     filter (\<lambda>a. \<exists>t. h a = Some t \<and> priority t = lower prio) as"
  by (induction as) (simp_all split: option.splits)






lemma pop_middle: "pop (length ys) (ys @ x # zs) = Inr (ys @ zs)"
  by (simp add: pop_def)

lemma delete_task_absent: "tid \<notin> set (tasks s) \<Longrightarrow> delete_task tid s = (Inr False, s)"
  by (simp add: delete_task_def delete_task_loop_absent)

lemma delete_task_present:
  assumes "tid \<in> set (tasks s)"
  shows "\<exists>ys zs. tasks s = ys @ tid # zs \<and> tid \<notin> set ys \<and>
           delete_task tid s = (Inr True, s\<lparr> tasks := ys @ zs \<rparr>)"
proof -
  from delete_task_loop_present [OF assms, of 0] obtain ys zs where
    split: "tasks s = ys @ tid # zs" "tid \<notin> set ys"
    and idx: "delete_task_loop 0 (tasks s) tid = Some (length ys)"
    by auto
  have "pop (length ys) (tasks s) = Inr (ys @ zs)"
    by (simp only: split pop_middle)
  with idx have "delete_task tid s = (Inr True, s\<lparr> tasks := ys @ zs \<rparr>)"
    by (simp add: delete_task_def)
  with split show ?thesis by blast
qed

lemma mark_complete_absent: "tid \<notin> set (tasks s) \<Longrightarrow> mark_complete tid s = (False, s)"
  by (simp add: mark_complete_def mark_complete_loop_absent)

lemma mark_complete_present:
  "tid \<in> set (tasks s) \<Longrightarrow>
     mark_complete tid s =
       (True, s\<lparr> heap := (heap s)(tid := map_option Task_mark_complete (heap s tid)) \<rparr>)"
  by (simp add: mark_complete_def mark_complete_loop_present)

lemma held_ok_mark:
  "held_ok h a \<Longrightarrow> held_ok (h(tid := map_option Task_mark_complete (h tid))) a"
  by (auto simp: held_ok_def Task_mark_complete_def split: option.splits)

lemma held_ok_other: "held_ok h a \<Longrightarrow> b \<noteq> a \<Longrightarrow> held_ok (h(b := v)) a"
  by (simp add: held_ok_def)

lemma store_ok_live: "store_ok s \<Longrightarrow> a \<in> set (tasks s) \<Longrightarrow> a \<in> dom (heap s)"
  by (auto simp: store_ok_def list_all_iff held_ok_def split: option.splits)

lemma store_ok_init: "store_ok (TaskManager_init h)"
  by (simp add: store_ok_def TaskManager_init_def)

lemma store_ok_add:
  assumes "store_ok s" and "a \<notin> dom (heap s)"
  shows "store_ok (snd (add_task a now ttl descr prio s))"
proof (cases "lower prio \<in> set priorities")
  case False
  with assms(1) show ?thesis by (simp add: add_task_def)
next
  case True
  from assms have fresh: "a \<notin> set (tasks s)" using store_ok_live by blast
  have new: "held_ok ((heap s)(a \<mapsto> Task_init a now ttl descr prio)) a"
    using True by (simp add: held_ok_def Task_init_def)
  have old: "held_ok ((heap s)(a \<mapsto> Task_init a now ttl descr prio)) b" if "b \<in> set (tasks s)" for b
  proof -
    from that assms(1) have "held_ok (heap s) b" by (simp add: store_ok_def list_all_iff)
    moreover from that fresh have "a \<noteq> b" by blast
    ultimately show ?thesis by (rule held_ok_other)
  qed
  from True have "snd (add_task a now ttl descr prio s) =
      s\<lparr> heap := (heap s)(a \<mapsto> Task_init a now ttl descr prio), tasks := tasks s @ [a] \<rparr>"
    by (simp add: add_task_def)
  with assms(1) fresh new old show ?thesis
    by (simp add: store_ok_def list_all_iff)
qed

lemma store_ok_mark: "store_ok s \<Longrightarrow> store_ok (snd (mark_complete tid s))"
proof (cases "tid \<in> set (tasks s)")
  case False
  assume "store_ok s"
  with False show ?thesis by (simp add: mark_complete_absent)
next
  case True
  assume "store_ok s"
  with True show ?thesis
    by (simp add: mark_complete_present store_ok_def list_all_iff held_ok_mark)
qed

lemma store_ok_delete: "store_ok s \<Longrightarrow> store_ok (snd (delete_task tid s))"
proof (cases "tid \<in> set (tasks s)")
  case False
  assume "store_ok s"
  with False show ?thesis by (simp add: delete_task_absent)
next
  case True
  assume ok: "store_ok s"
  from delete_task_present [OF True] obtain ys zs where
    "tasks s = ys @ tid # zs" "delete_task tid s = (Inr True, s\<lparr> tasks := ys @ zs \<rparr>)"
    by blast
  with ok show ?thesis by (simp add: store_ok_def list_all_iff)
qed

lemma store_ok_construct:
  assumes "store_ok s" and "a \<notin> dom (heap s)"
  shows "store_ok (s\<lparr> heap := (heap s)(a \<mapsto> t) \<rparr>)"
proof -
  have "held_ok ((heap s)(a \<mapsto> t)) b" if "b \<in> set (tasks s)" for b
  proof -
    from that assms(1) have "held_ok (heap s) b" by (simp add: store_ok_def list_all_iff)
    moreover from that assms have "a \<noteq> b" using store_ok_live by blast
    ultimately show ?thesis by (rule held_ok_other)
  qed
  with assms(1) show ?thesis by (simp add: store_ok_def list_all_iff)
qed

lemma store_ok_reclaim: "store_ok s \<Longrightarrow> store_ok (reclaim a s)"
  by (auto simp: reclaim_def store_ok_def list_all_iff intro: held_ok_other)

lemma reachable_store_ok: "reachable s \<Longrightarrow> store_ok s"
proof (induction rule: reachable.induct)
  case (r_init h)
  show ?case by (rule store_ok_init)
next
  case (r_add s a now ttl descr prio)
  then show ?case by (simp add: store_ok_add)
next
  case (r_mark s tid)
  then show ?case by (simp add: store_ok_mark)
next
  case (r_delete s tid)
  then show ?case by (simp add: store_ok_delete)
next
  case (r_construct s a now ttl descr prio)
  then show ?case by (simp add: store_ok_construct)
next
  case (r_reclaim s a)
  then show ?case by (simp add: store_ok_reclaim)
qed

section \<open>The store of the demonstration\<close>

lemma main_store_eq:
  "main_store =
     \<lparr> heap =
         [1 \<mapsto> \<lparr> task_id = 1, title = (lit ''Complete project''), description = (lit ''Finish the Python project''),
                 priority = (lit ''high''), completed = False, created_at = 0 \<rparr>,
          2 \<mapsto> \<lparr> task_id = 2, title = (lit ''Review code''), description = (lit ''Review pull requests''),
                 priority = (lit ''medium''), completed = False, created_at = 1 \<rparr>,
          3 \<mapsto> \<lparr> task_id = 3, title = (lit ''Update docs''), description = (lit ''Update documentation''),
                 priority = (lit ''low''), completed = False, created_at = 2 \<rparr>,
          4 \<mapsto> \<lparr> task_id = 4, title = (lit ''Bug fix''), description = (lit ''Fix critical bug in payment system''),
                 priority = (lit ''high''), completed = False, created_at = 3 \<rparr>],
       tasks = [1, 2, 3, 4] \<rparr>"
  by (simp add: main_store_def add_task_def Task_init_def TaskManager_init_def
      lower_high lower_medium lower_low)

lemma main_store_ok: "store_ok main_store"
  by (simp add: main_store_eq store_ok_def held_ok_def)

lemma main_store_reachable: "reachable main_store"
  unfolding main_store_def
  apply (rule r_add)
   apply (rule r_add)
    apply (rule r_add)
     apply (rule r_add)
      apply (rule r_init)
  apply (simp_all add: add_task_def TaskManager_init_def lower_high lower_medium lower_low)
  done





lemma main_store_1:
  "heap main_store 1 = Some \<lparr> task_id = 1, title = (lit ''Complete project''),
     description = (lit ''Finish the Python project''), priority = (lit ''high''), completed = False,
     created_at = 0 \<rparr>"
  by (simp add: main_store_eq)

section \<open>What the operations keep\<close>

lemma completed_kept_mark:
  assumes "heap s b = Some u" and "completed u"
  shows "\<exists>u'. heap (snd (mark_complete tid s)) b = Some u' \<and> completed u'"
proof (cases "tid \<in> set (tasks s)")
  case False
  with assms show ?thesis by (simp add: mark_complete_absent)
next
  case True
  with assms show ?thesis
    by (auto simp: mark_complete_present Task_mark_complete_def)
qed

lemma heap_delete_task: "heap (snd (delete_task tid s)) = heap s"
proof (cases "tid \<in> set (tasks s)")
  case False
  then show ?thesis by (simp add: delete_task_absent)
next
  case True
  from delete_task_present [OF True] show ?thesis by auto
qed

lemma heap_add_task_other: "b \<noteq> a \<Longrightarrow> heap (snd (add_task a now ttl descr prio s)) b = heap s b"
  by (simp add: add_task_def)

lemma reachable_ids_unique:
  assumes "reachable s"
  shows "distinct (tasks s) \<and> (\<forall>a\<in>set (tasks s). \<exists>t. heap s a = Some t \<and> task_id t = a)"
proof -
  from assms have "store_ok s" by (rule reachable_store_ok)
  then show ?thesis
    by (auto simp: store_ok_def list_all_iff held_ok_def split: option.splits)
qed

section \<open>The claims\<close>

text \<open>
  C1. The id of a task is the address of its object. Among the tasks a store holds at one
  moment the ids are pairwise different, each is set once by the constructor and no operation
  writes it again (\<open>reachable_ids_unique\<close>). Over the lifetime of the store an id does
  come back: a task is added at address 7, deleted and reclaimed, and the runtime, which may
  give a free address to a new object, places the next task at address 7. The second task has
  the id the first one had.
\<close>

theorem task_id_reused:
  "fst (add_task 7 0 (lit ''first'') [] (lit ''low'') (TaskManager_init Map.empty)) = Inr 7 \<and>
   fst (delete_task 7 (snd (add_task 7 0 (lit ''first'') [] (lit ''low'') (TaskManager_init Map.empty)))) = Inr True \<and>
   7 \<notin> dom (heap (reclaim 7 (snd (delete_task 7
          (snd (add_task 7 0 (lit ''first'') [] (lit ''low'') (TaskManager_init Map.empty))))))) \<and>
   fst (add_task 7 1 (lit ''second'') [] (lit ''low'') (reclaim 7 (snd (delete_task 7
          (snd (add_task 7 0 (lit ''first'') [] (lit ''low'') (TaskManager_init Map.empty))))))) = Inr 7 \<and>
   map_option title (heap (snd (add_task 7 0 (lit ''first'') [] (lit ''low'') (TaskManager_init Map.empty))) 7)
     = Some (lit ''first'') \<and>
   map_option title (heap (snd (add_task 7 1 (lit ''second'') [] (lit ''low'') (reclaim 7 (snd (delete_task 7
          (snd (add_task 7 0 (lit ''first'') [] (lit ''low'') (TaskManager_init Map.empty)))))))) 7)
     = Some (lit ''second'') \<and>
   map_option task_id (heap (snd (add_task 7 1 (lit ''second'') [] (lit ''low'') (reclaim 7 (snd (delete_task 7
          (snd (add_task 7 0 (lit ''first'') [] (lit ''low'') (TaskManager_init Map.empty)))))))) 7)
     = Some 7 \<and>
   map_option task_id
     (heap (snd (add_task 7 0 (lit ''first'') [] (lit ''low'') (TaskManager_init Map.empty))) 7)
     = Some 7"
  by (simp add: add_task_def delete_task_def pop_def reclaim_def TaskManager_init_def
      Task_init_def lower_low)

text \<open>
  C2. When the lowercased priority is none of \<open>high\<close>, \<open>medium\<close>, \<open>low\<close>,
  \<open>add_task\<close> raises \<open>ValueError\<close> and leaves the state as it was: no object is
  created, nothing is appended, and the list has the length it had.
\<close>

theorem add_task_invalid_priority:
  assumes "lower prio \<notin> set priorities"
  shows "add_task a now ttl descr prio s = (Inl ValueError, s) \<and>
         length (fst (list_all_tasks (snd (add_task a now ttl descr prio s)))) =
           length (fst (list_all_tasks s))"
  using assms by (simp add: add_task_def)

theorem add_task_invalid_priority_witness:
  "lower (lit ''urgent'') \<notin> set priorities \<and>
   add_task 1 0 (lit ''Pay rent'') (lit ''by Friday'') (lit ''urgent'') (TaskManager_init Map.empty) =
     (Inl ValueError, TaskManager_init Map.empty)"
proof -
  have h: "lower (lit ''urgent'') \<notin> set priorities" by (simp add: lower_urgent)
  from add_task_invalid_priority [OF h, of 1 0 "(lit ''Pay rent'')" "(lit ''by Friday'')" "TaskManager_init Map.empty"]
  show ?thesis using h by simp
qed

text \<open>
  C3. When the lowercased priority is one of \<open>high\<close>, \<open>medium\<close>, \<open>low\<close>, whatever
  the casing of the input, \<open>add_task\<close> succeeds: it returns the reference to the new task,
  the store holds that task, and the priority stored in it is the lowercased input.
\<close>

theorem add_task_valid_priority:
  assumes "lower prio \<in> set priorities"
  shows "\<exists>s'. add_task a now ttl descr prio s = (Inr a, s') \<and>
           (\<exists>t. heap s' a = Some t \<and> priority t = lower prio) \<and>
           a \<in> set (tasks s')"
  using assms by (simp add: add_task_def Task_init_def)

theorem add_task_valid_priority_witness:
  "lower (lit ''HIGH'') \<in> set priorities \<and>
   (\<exists>s'. add_task 1 0 (lit ''Pay rent'') (lit ''by Friday'') (lit ''HIGH'') (TaskManager_init Map.empty) = (Inr 1, s') \<and>
      (\<exists>t. heap s' 1 = Some t \<and> priority t = (lit ''high'')) \<and> 1 \<in> set (tasks s'))"
proof -
  have h: "lower (lit ''HIGH'') \<in> set priorities" by (simp add: lower_HIGH)
  from add_task_valid_priority [OF h, of 1 0 "(lit ''Pay rent'')" "(lit ''by Friday'')" "TaskManager_init Map.empty"]
  show ?thesis using h by (simp add: lower_HIGH)
qed

text \<open>
  C4. After a successful \<open>add_task\<close>, \<open>list_all_tasks\<close> returns the former list with the
  returned task appended: it is one longer, its last element is the new task, whose fields
  are those the constructor set, and every other object is untouched, so the tasks held
  before keep their order and their values.
\<close>

theorem add_task_appends:
  assumes "add_task a now ttl descr prio s = (Inr r, s')"
  shows "fst (list_all_tasks s') = fst (list_all_tasks s) @ [r] \<and>
         length (fst (list_all_tasks s')) = Suc (length (fst (list_all_tasks s))) \<and>
         last (fst (list_all_tasks s')) = r \<and>
         heap s' r = Some (Task_init r now ttl descr prio) \<and>
         (\<forall>b. b \<noteq> r \<longrightarrow> heap s' b = heap s b)"
  using assms by (auto simp: add_task_def list_all_tasks_def split: if_splits)

theorem add_task_appends_witness:
  "add_task 5 4 (lit ''Pay rent'') (lit ''by Friday'') (lit ''Low'') main_store =
     (Inr 5, snd (add_task 5 4 (lit ''Pay rent'') (lit ''by Friday'') (lit ''Low'') main_store)) \<and>
   fst (list_all_tasks (snd (add_task 5 4 (lit ''Pay rent'') (lit ''by Friday'') (lit ''Low'') main_store))) = [1, 2, 3, 4, 5] \<and>
   map_option priority (heap (snd (add_task 5 4 (lit ''Pay rent'') (lit ''by Friday'') (lit ''Low'') main_store)) 5) = Some (lit ''low'') \<and>
   heap (snd (add_task 5 4 (lit ''Pay rent'') (lit ''by Friday'') (lit ''Low'') main_store)) 2 = heap main_store 2"
proof -
  have low: "lower (lit ''Low'') = (lit ''low'')" by code_simp
  have h: "add_task 5 4 (lit ''Pay rent'') (lit ''by Friday'') (lit ''Low'') main_store =
     (Inr 5, snd (add_task 5 4 (lit ''Pay rent'') (lit ''by Friday'') (lit ''Low'') main_store))"
    by (simp add: add_task_def low)
  from add_task_appends [OF h] show ?thesis
    using h by (simp add: list_all_tasks_def main_store_eq Task_init_def low)
qed

text \<open>
  C5. For a task \<open>t\<close> that the store holds at address \<open>a\<close>, \<open>mark_complete a\<close>
  returns \<open>True\<close> and changes nothing but the flag \<open>completed\<close> of that task, which becomes
  true. A second call returns \<open>True\<close> and changes nothing at all. A flag that is true stays
  true under every operation of the store: \<open>mark_complete\<close> and \<open>delete_task\<close> with any
  id, and \<open>add_task\<close> of a new object.
\<close>

theorem mark_complete_held:
  assumes "a \<in> set (tasks s)" and "heap s a = Some t"
  shows "mark_complete a s = (True, s\<lparr> heap := (heap s)(a \<mapsto> t\<lparr>completed := True\<rparr>) \<rparr>) \<and>
         mark_complete a (snd (mark_complete a s)) = (True, snd (mark_complete a s)) \<and>
         (\<forall>b u. heap s b = Some u \<and> completed u \<longrightarrow>
            (\<forall>tid. \<exists>u'. heap (snd (mark_complete tid s)) b = Some u' \<and> completed u') \<and>
            (\<forall>tid. heap (snd (delete_task tid s)) b = Some u) \<and>
            (\<forall>a' now ttl descr prio. a' \<notin> dom (heap s) \<longrightarrow>
               heap (snd (add_task a' now ttl descr prio s)) b = Some u))"
proof (intro conjI allI impI)
  show first: "mark_complete a s = (True, s\<lparr> heap := (heap s)(a \<mapsto> t\<lparr>completed := True\<rparr>) \<rparr>)"
    using assms by (simp add: mark_complete_present Task_mark_complete_def)
  have "a \<in> set (tasks (snd (mark_complete a s)))"
    using assms(1) by (simp add: first)
  then show "mark_complete a (snd (mark_complete a s)) = (True, snd (mark_complete a s))"
    by (simp add: mark_complete_present) (simp add: first Task_mark_complete_def)
next
  fix b u tid
  assume "heap s b = Some u \<and> completed u"
  then show "\<exists>u'. heap (snd (mark_complete tid s)) b = Some u' \<and> completed u'"
    by (simp add: completed_kept_mark)
next
  fix b u tid
  assume "heap s b = Some u \<and> completed u"
  then show "heap (snd (delete_task tid s)) b = Some u"
    by (simp add: heap_delete_task)
next
  fix b u a' now ttl descr prio
  assume "heap s b = Some u \<and> completed u" and "a' \<notin> dom (heap s)"
  then have "b \<noteq> a'" by auto
  with \<open>heap s b = Some u \<and> completed u\<close>
  show "heap (snd (add_task a' now ttl descr prio s)) b = Some u"
    by (simp add: heap_add_task_other)
qed

theorem mark_complete_held_witness:
  "1 \<in> set (tasks main_store) \<and>
   map_option completed (heap main_store 1) = Some False \<and>
   fst (mark_complete 1 main_store) = True \<and>
   map_option completed (heap (snd (mark_complete 1 main_store)) 1) = Some True \<and>
   mark_complete 1 (snd (mark_complete 1 main_store)) = (True, snd (mark_complete 1 main_store)) \<and>
   map_option completed (heap (snd (mark_complete 2 (snd (mark_complete 1 main_store)))) 1) = Some True \<and>
   map_option completed (heap (snd (delete_task 1 (snd (mark_complete 1 main_store)))) 1) = Some True"
proof -
  let ?t = "\<lparr> task_id = 1, title = (lit ''Complete project''),
     description = (lit ''Finish the Python project''), priority = (lit ''high''), completed = False,
     created_at = 0 \<rparr>"
  let ?s = "snd (mark_complete 1 main_store)"
  have held: "1 \<in> set (tasks main_store)" by (simp add: main_store_eq)
  note first = mark_complete_held [OF held main_store_1]
  from first [THEN conjunct1]
  have s: "?s = main_store\<lparr> heap := (heap main_store)(1 \<mapsto> ?t\<lparr>completed := True\<rparr>) \<rparr>"
    by simp
  have held': "1 \<in> set (tasks ?s)" unfolding s by (simp add: main_store_eq)
  have live': "heap ?s 1 = Some (?t\<lparr>completed := True\<rparr>)" unfolding s by simp
  note second = mark_complete_held [OF held' live']
  from second [THEN conjunct2, THEN conjunct2] have kept: "\<forall>b u. heap ?s b = Some u \<and> completed u \<longrightarrow>
      (\<forall>tid. \<exists>u'. heap (snd (mark_complete tid ?s)) b = Some u' \<and> completed u') \<and>
      (\<forall>tid. heap (snd (delete_task tid ?s)) b = Some u) \<and>
      (\<forall>a' now ttl descr prio. a' \<notin> dom (heap ?s) \<longrightarrow>
         heap (snd (add_task a' now ttl descr prio ?s)) b = Some u)"
    .
  have flag: "heap ?s 1 = Some (?t\<lparr>completed := True\<rparr>) \<and> completed (?t\<lparr>completed := True\<rparr>)"
    using live' by simp
  from kept [rule_format, OF flag]
  have "\<exists>u'. heap (snd (mark_complete 2 ?s)) 1 = Some u' \<and> completed u'"
    and "heap (snd (delete_task 1 ?s)) 1 = Some (?t\<lparr>completed := True\<rparr>)"
    by blast+
  then have "map_option completed (heap (snd (mark_complete 2 ?s)) 1) = Some True"
    and "map_option completed (heap (snd (delete_task 1 ?s)) 1) = Some True"
    by auto
  moreover from first [THEN conjunct1] have "fst (mark_complete 1 main_store) = True"
    by simp
  moreover note first [THEN conjunct2, THEN conjunct1]
  moreover have "map_option completed (heap ?s 1) = Some True"
    using live' by simp
  moreover have "map_option completed (heap main_store 1) = Some False"
    by (simp add: main_store_1)
  ultimately show ?thesis
    using held by simp
qed

text \<open>
  C6. For an id that is the address of no task in the list, \<open>mark_complete\<close> returns
  \<open>False\<close> and \<open>delete_task\<close> returns \<open>False\<close> without raising, and each leaves the state
  exactly as it was.
\<close>

theorem absent_id_no_effect:
  assumes "tid \<notin> set (tasks s)"
  shows "mark_complete tid s = (False, s) \<and> delete_task tid s = (Inr False, s)"
  using assms by (simp add: mark_complete_absent delete_task_absent)

theorem absent_id_no_effect_witness:
  "9 \<notin> set (tasks main_store) \<and>
   mark_complete 9 main_store = (False, main_store) \<and>
   delete_task 9 main_store = (Inr False, main_store)"
proof -
  have h: "9 \<notin> set (tasks main_store)" by (simp add: main_store_eq)
  from absent_id_no_effect [OF h] show ?thesis using h by simp
qed

text \<open>
  C7. For a task the store holds at address \<open>a\<close>, \<open>delete_task a\<close> returns \<open>True\<close> and
  removes the first entry \<open>a\<close> of the list and nothing else: the entries before it and
  after it stay in their order, the list is shorter by one, no object changes, and when the
  list had no address twice, \<open>a\<close> is no longer in it.
\<close>

theorem delete_task_held:
  assumes "a \<in> set (tasks s)"
  shows "\<exists>ys zs. tasks s = ys @ a # zs \<and> a \<notin> set ys \<and>
           delete_task a s = (Inr True, s\<lparr> tasks := ys @ zs \<rparr>) \<and>
           tasks (snd (delete_task a s)) = remove1 a (tasks s) \<and>
           Suc (length (tasks (snd (delete_task a s)))) = length (tasks s) \<and>
           (distinct (tasks s) \<longrightarrow> a \<notin> set (tasks (snd (delete_task a s))))"
proof -
  from delete_task_present [OF assms] obtain ys zs where
    1: "tasks s = ys @ a # zs" and 2: "a \<notin> set ys"
    and 3: "delete_task a s = (Inr True, s\<lparr> tasks := ys @ zs \<rparr>)"
    by blast
  from 1 2 have "remove1 a (tasks s) = ys @ zs"
    by (simp add: remove1_append)
  with 1 2 3 show ?thesis by auto
qed

theorem delete_task_held_witness:
  "2 \<in> set (tasks main_store) \<and> distinct (tasks main_store) \<and>
   fst (delete_task 2 main_store) = Inr True \<and>
   tasks (snd (delete_task 2 main_store)) = [1, 3, 4] \<and>
   2 \<notin> set (tasks (snd (delete_task 2 main_store))) \<and>
   heap (snd (delete_task 2 main_store)) = heap main_store"
proof -
  have h: "2 \<in> set (tasks main_store)" by (simp add: main_store_eq)
  from delete_task_held [OF h] obtain ys zs where
    "delete_task 2 main_store = (Inr True, main_store\<lparr> tasks := ys @ zs \<rparr>)"
    "tasks (snd (delete_task 2 main_store)) = remove1 2 (tasks main_store)"
    by blast
  then show ?thesis using h by (simp add: main_store_eq)
qed

text \<open>
  C8. For every priority string, \<open>filter_by_priority\<close> returns the entries of the list, in
  the order of the list, whose task has the lowercased input as its stored priority. It
  leaves the state as it was and rejects no input: in a store that satisfies the invariant,
  a priority that is none of the three gives the empty list.
\<close>

theorem filter_by_priority_spec:
  "fst (filter_by_priority prio s) =
     filter (\<lambda>a. \<exists>t. heap s a = Some t \<and> priority t = lower prio) (tasks s) \<and>
   snd (filter_by_priority prio s) = s \<and>
   (store_ok s \<and> lower prio \<notin> set priorities \<longrightarrow> fst (filter_by_priority prio s) = [])"
proof (intro conjI impI)
  show eq: "fst (filter_by_priority prio s) =
     filter (\<lambda>a. \<exists>t. heap s a = Some t \<and> priority t = lower prio) (tasks s)"
    by (simp add: filter_by_priority_def filter_by_priority_loop_filter)
  show "snd (filter_by_priority prio s) = s"
    by (simp add: filter_by_priority_def)
  assume a: "store_ok s \<and> lower prio \<notin> set priorities"
  have "\<not> (\<exists>t. heap s b = Some t \<and> priority t = lower prio)" if "b \<in> set (tasks s)" for b
  proof -
    from a that have "held_ok (heap s) b" by (simp add: store_ok_def list_all_iff)
    with a show ?thesis by (auto simp: held_ok_def split: option.splits)
  qed
  then show "fst (filter_by_priority prio s) = []"
    unfolding eq by (simp add: filter_empty_conv)
qed

theorem filter_by_priority_spec_witness:
  "fst (filter_by_priority (lit ''HIGH'') main_store) = [1, 4] \<and>
   store_ok main_store \<and> lower (lit ''urgent'') \<notin> set priorities \<and>
   fst (filter_by_priority (lit ''urgent'') main_store) = []"
proof -
  have h: "store_ok main_store \<and> lower (lit ''urgent'') \<notin> set priorities"
    by (simp add: main_store_ok lower_urgent)
  from filter_by_priority_spec [of "(lit ''urgent'')" main_store] h
  have "fst (filter_by_priority (lit ''urgent'') main_store) = []" by blast
  moreover from filter_by_priority_spec [of "(lit ''HIGH'')" main_store]
  have "fst (filter_by_priority (lit ''HIGH'') main_store) = [1, 4]"
    by (simp add: main_store_eq lower_HIGH)
  ultimately show ?thesis using h by simp
qed




text \<open>
  C10. The constructor of \<open>Task\<close> is total: for any title, description and priority it
  returns a task whose priority is the lowercased input and whose flag \<open>completed\<close> is
  false. It does not check the priority: constructed with \<open>urgent\<close>, the task has a priority
  that is none of the three, while \<open>add_task\<close> with the same input raises
  \<open>ValueError\<close>.
\<close>

theorem Task_init_unvalidated:
  "priority (Task_init self now ttl descr prio) = lower prio \<and>
   \<not> completed (Task_init self now ttl descr prio) \<and>
   priority (Task_init self now ttl descr (lit ''urgent'')) \<notin> set priorities \<and>
   fst (add_task self now ttl descr (lit ''urgent'') s) = Inl ValueError"
  by (simp add: Task_init_def add_task_def lower_urgent)

end
